theory Spec2Isabelle
  imports Main
begin

section \<open>Python values, lists and errors\<close>

text \<open>
  The buffers of \<^verbatim>\<open>main.py\<close> store arbitrary Python values and use \<^verbatim>\<open>None\<close> as the
  marker of a cleared slot. A Python value is modelled as \<open>'a option\<close>: \<open>None\<close> is Python's
  \<^verbatim>\<open>None\<close>, \<open>Some x\<close> is any other value. A caller may enqueue \<^verbatim>\<open>None\<close> itself, so
  items have the same type as slots.
\<close>

type_synonym 'a pyval = "'a option"

text \<open>
  The exceptions the code can raise: its own \<^verbatim>\<open>Exception(msg)\<close>, and the two built-in
  ones of list indexing and of \<^verbatim>\<open>%\<close>.
\<close>

datatype error = Exception string | IndexError | ZeroDivisionError

text \<open>
  Every method takes the object's state and returns its outcome (the exception raised, or
  the value returned) together with the state the object is left in, also when it raises.
\<close>

type_synonym ('r, 's) outcome = "(error + 'r) \<times> 's"

text \<open>Python list indexing: a negative index counts from the end, out of range raises.\<close>

definition py_index :: "'v list \<Rightarrow> int \<Rightarrow> error + nat" where
  "py_index xs i =
     (let n = int (length xs); j = (if i < 0 then i + n else i)
      in if 0 \<le> j \<and> j < n then Inr (nat j) else Inl IndexError)"

definition py_getitem :: "'v list \<Rightarrow> int \<Rightarrow> error + 'v" where
  "py_getitem xs i = (case py_index xs i of Inl e \<Rightarrow> Inl e | Inr j \<Rightarrow> Inr (xs ! j))"

definition py_setitem :: "'v list \<Rightarrow> int \<Rightarrow> 'v \<Rightarrow> error + 'v list" where
  "py_setitem xs i v = (case py_index xs i of Inl e \<Rightarrow> Inl e | Inr j \<Rightarrow> Inr (xs[j := v]))"

text \<open>
  Python's \<^verbatim>\<open>a % b\<close> on integers takes the sign of \<open>b\<close>, as \<open>mod\<close> on \<open>int\<close> does, and
  raises for \<open>b = 0\<close>.
\<close>

definition py_mod :: "int \<Rightarrow> int \<Rightarrow> error + int" where
  "py_mod a b = (if b = 0 then Inl ZeroDivisionError else Inr (a mod b))"

text \<open>\<^verbatim>\<open>str\<close> of an integer and \<^verbatim>\<open>repr\<close> of a list, as the f-strings of the code use them.\<close>

function str_nat :: "nat \<Rightarrow> string" where
  "str_nat n =
     (if n < 10 then [char_of (48 + n)]
      else str_nat (n div 10) @ [char_of (48 + n mod 10)])"
  by pat_completeness auto
termination
  by (relation "measure id") auto

declare str_nat.simps [simp del]

definition str_int :: "int \<Rightarrow> string" where
  "str_int i = (if i < 0 then CHR ''-'' # str_nat (nat (- i)) else str_nat (nat i))"

fun join_comma :: "string list \<Rightarrow> string" where
  "join_comma [] = []"
| "join_comma [x] = x"
| "join_comma (x # y # ys) = x @ '', '' @ join_comma (y # ys)"

definition repr_val :: "('a \<Rightarrow> string) \<Rightarrow> 'a pyval \<Rightarrow> string" where
  "repr_val r v = (case v of None \<Rightarrow> ''None'' | Some x \<Rightarrow> r x)"

definition repr_list :: "('a \<Rightarrow> string) \<Rightarrow> 'a pyval list \<Rightarrow> string" where
  "repr_list r xs = ''['' @ join_comma (map (repr_val r) xs) @ '']''"

section \<open>BufferDynamic\<close>

record 'a BufferDynamic =
  dyn_buffer :: "'a pyval list"
  dyn_max_size :: int
  dyn_head :: int
  dyn_tail :: int
  dyn_size :: int

definition BufferDynamic_init :: "int \<Rightarrow> 'a BufferDynamic" where
  "BufferDynamic_init max_size =
     \<lparr>dyn_buffer = [], dyn_max_size = max_size, dyn_head = 0, dyn_tail = 0, dyn_size = 0\<rparr>"

definition BufferDynamic_is_empty :: "'a BufferDynamic \<Rightarrow> bool" where
  "BufferDynamic_is_empty s = (dyn_size s = 0)"

definition BufferDynamic_is_full :: "'a BufferDynamic \<Rightarrow> bool" where
  "BufferDynamic_is_full s = (dyn_size s = dyn_max_size s)"

definition BufferDynamic_enqueue ::
  "'a BufferDynamic \<Rightarrow> 'a pyval \<Rightarrow> (unit, 'a BufferDynamic) outcome" where
  "BufferDynamic_enqueue s item =
     (if BufferDynamic_is_full s then (Inl (Exception ''Buffer is full''), s)
      else
        case (if int (length (dyn_buffer s)) < dyn_max_size s
              then Inr (dyn_buffer s @ [item])
              else py_setitem (dyn_buffer s) (dyn_tail s) item) of
          Inl e \<Rightarrow> (Inl e, s)
        | Inr b \<Rightarrow>
            (let s1 = s\<lparr>dyn_buffer := b\<rparr> in
             case py_mod (dyn_tail s1 + 1) (dyn_max_size s1) of
               Inl e \<Rightarrow> (Inl e, s1)
             | Inr t \<Rightarrow> (Inr (), s1\<lparr>dyn_tail := t, dyn_size := dyn_size s1 + 1\<rparr>)))"

definition BufferDynamic_dequeue ::
  "'a BufferDynamic \<Rightarrow> ('a pyval, 'a BufferDynamic) outcome" where
  "BufferDynamic_dequeue s =
     (if BufferDynamic_is_empty s then (Inl (Exception ''Buffer is empty''), s)
      else
        case py_getitem (dyn_buffer s) (dyn_head s) of
          Inl e \<Rightarrow> (Inl e, s)
        | Inr item \<Rightarrow>
            (case py_setitem (dyn_buffer s) (dyn_head s) None of
               Inl e \<Rightarrow> (Inl e, s)
             | Inr b \<Rightarrow>
                 (let s1 = s\<lparr>dyn_buffer := b\<rparr> in
                  case py_mod (dyn_head s1 + 1) (dyn_max_size s1) of
                    Inl e \<Rightarrow> (Inl e, s1)
                  | Inr h \<Rightarrow> (Inr item, s1\<lparr>dyn_head := h, dyn_size := dyn_size s1 - 1\<rparr>))))"

definition BufferDynamic_get_buffer ::
  "'a BufferDynamic \<Rightarrow> ('a pyval list, 'a BufferDynamic) outcome" where
  "BufferDynamic_get_buffer s = (Inr (dyn_buffer s), s)"

section \<open>BufferFixed\<close>

record 'a BufferFixed =
  fix_buffer :: "'a pyval list"
  fix_max_size :: int
  fix_head :: int
  fix_tail :: int
  fix_size :: int

text \<open>\<^verbatim>\<open>[None] * max_size\<close> is the empty list for a \<^verbatim>\<open>max_size\<close> below one.\<close>

definition BufferFixed_init :: "int \<Rightarrow> 'a BufferFixed" where
  "BufferFixed_init max_size =
     \<lparr>fix_buffer = replicate (nat max_size) None, fix_max_size = max_size,
      fix_head = 0, fix_tail = 0, fix_size = 0\<rparr>"

definition BufferFixed_is_empty :: "'a BufferFixed \<Rightarrow> bool" where
  "BufferFixed_is_empty s = (fix_size s = 0)"

definition BufferFixed_is_full :: "'a BufferFixed \<Rightarrow> bool" where
  "BufferFixed_is_full s = (fix_size s = fix_max_size s)"

definition BufferFixed_enqueue ::
  "'a BufferFixed \<Rightarrow> 'a pyval \<Rightarrow> (unit, 'a BufferFixed) outcome" where
  "BufferFixed_enqueue s item =
     (if BufferFixed_is_full s then (Inl (Exception ''Buffer is full''), s)
      else
        case py_setitem (fix_buffer s) (fix_tail s) item of
          Inl e \<Rightarrow> (Inl e, s)
        | Inr b \<Rightarrow>
            (let s1 = s\<lparr>fix_buffer := b\<rparr> in
             case py_mod (fix_tail s1 + 1) (fix_max_size s1) of
               Inl e \<Rightarrow> (Inl e, s1)
             | Inr t \<Rightarrow> (Inr (), s1\<lparr>fix_tail := t, fix_size := fix_size s1 + 1\<rparr>)))"

definition BufferFixed_dequeue ::
  "'a BufferFixed \<Rightarrow> ('a pyval, 'a BufferFixed) outcome" where
  "BufferFixed_dequeue s =
     (if BufferFixed_is_empty s then (Inl (Exception ''Buffer is empty''), s)
      else
        case py_getitem (fix_buffer s) (fix_head s) of
          Inl e \<Rightarrow> (Inl e, s)
        | Inr item \<Rightarrow>
            (case py_setitem (fix_buffer s) (fix_head s) None of
               Inl e \<Rightarrow> (Inl e, s)
             | Inr b \<Rightarrow>
                 (let s1 = s\<lparr>fix_buffer := b\<rparr> in
                  case py_mod (fix_head s1 + 1) (fix_max_size s1) of
                    Inl e \<Rightarrow> (Inl e, s1)
                  | Inr h \<Rightarrow> (Inr item, s1\<lparr>fix_head := h, fix_size := fix_size s1 - 1\<rparr>))))"

definition BufferFixed_get_buffer ::
  "'a BufferFixed \<Rightarrow> ('a pyval list, 'a BufferFixed) outcome" where
  "BufferFixed_get_buffer s = (Inr (fix_buffer s), s)"

section \<open>BufferFixedOverwrite and its Iterator\<close>

record Iterator =
  max_index :: int
  in_index :: int
  out_index :: int

definition Iterator_init :: "int \<Rightarrow> Iterator" where
  "Iterator_init m = \<lparr>max_index = m, in_index = 0, out_index = 0\<rparr>"

definition Iterator_get_val :: "Iterator \<Rightarrow> string \<times> Iterator" where
  "Iterator_get_val it = (str_int (in_index it) @ '' '' @ str_int (out_index it), it)"

definition Iterator_get_out :: "Iterator \<Rightarrow> int \<times> Iterator" where
  "Iterator_get_out it =
     (let index = out_index it
      in (index,
          if out_index it = max_index it then it\<lparr>out_index := 0\<rparr>
          else it\<lparr>out_index := out_index it + 1\<rparr>))"

definition Iterator_get_in :: "Iterator \<Rightarrow> int \<times> Iterator" where
  "Iterator_get_in it =
     (let index = in_index it;
          it1 = (if in_index it \<noteq> 0 \<and> in_index it = out_index it
                 then snd (Iterator_get_out it) else it);
          it2 = (if in_index it1 = max_index it1 then it1\<lparr>in_index := 0\<rparr>
                 else it1\<lparr>in_index := in_index it1 + 1\<rparr>)
      in (index, it2))"

record 'a BufferFixedOverwrite =
  ovw_buffer :: "'a pyval list"
  ovw_iter :: Iterator
  ovw_max_size :: int
  ovw_size :: int

definition BufferFixedOverwrite_init :: "int \<Rightarrow> 'a BufferFixedOverwrite" where
  "BufferFixedOverwrite_init max_size =
     \<lparr>ovw_buffer = replicate (nat max_size) None, ovw_iter = Iterator_init (max_size - 1),
      ovw_max_size = max_size, ovw_size = 0\<rparr>"

definition BufferFixedOverwrite_is_full :: "'a BufferFixedOverwrite \<Rightarrow> bool" where
  "BufferFixedOverwrite_is_full s = (ovw_size s = ovw_max_size s)"

definition BufferFixedOverwrite_is_empty :: "'a BufferFixedOverwrite \<Rightarrow> bool" where
  "BufferFixedOverwrite_is_empty s = (ovw_size s = 0)"

text \<open>
  In \<^verbatim>\<open>self.__buffer[self.__iter.get_in()] = item\<close> the index is computed, and the
  iterator advanced, before the store: a store that raised would leave the iterator moved.
\<close>

definition BufferFixedOverwrite_enqueue ::
  "'a BufferFixedOverwrite \<Rightarrow> 'a pyval \<Rightarrow> (unit, 'a BufferFixedOverwrite) outcome" where
  "BufferFixedOverwrite_enqueue s item =
     (case Iterator_get_in (ovw_iter s) of
        (i, it) \<Rightarrow>
          (let s1 = s\<lparr>ovw_iter := it\<rparr> in
           case py_setitem (ovw_buffer s1) i item of
             Inl e \<Rightarrow> (Inl e, s1)
           | Inr b \<Rightarrow> (Inr (), s1\<lparr>ovw_buffer := b, ovw_size := ovw_size s1 + 1\<rparr>)))"

definition BufferFixedOverwrite_dequeue ::
  "'a BufferFixedOverwrite \<Rightarrow> ('a pyval, 'a BufferFixedOverwrite) outcome" where
  "BufferFixedOverwrite_dequeue s =
     (if \<not> BufferFixedOverwrite_is_empty s then
        (case Iterator_get_out (ovw_iter s) of
           (out, it) \<Rightarrow>
             (let s1 = s\<lparr>ovw_iter := it\<rparr> in
              case py_getitem (ovw_buffer s1) out of
                Inl e \<Rightarrow> (Inl e, s1)
              | Inr element \<Rightarrow>
                  (case py_setitem (ovw_buffer s1) out None of
                     Inl e \<Rightarrow> (Inl e, s1)
                   | Inr b \<Rightarrow>
                       (Inr element, s1\<lparr>ovw_buffer := b, ovw_size := ovw_size s1 - 1\<rparr>))))
      else (Inr None, s))"

text \<open>
  \<^verbatim>\<open>get_buffer\<close> formats the storage and the iterator's two indices; \<open>r\<close> is \<^verbatim>\<open>repr\<close> on the
  stored values other than \<^verbatim>\<open>None\<close>.
\<close>

definition BufferFixedOverwrite_get_buffer ::
  "('a \<Rightarrow> string) \<Rightarrow> 'a BufferFixedOverwrite \<Rightarrow> (string, 'a BufferFixedOverwrite) outcome" where
  "BufferFixedOverwrite_get_buffer r s =
     (case Iterator_get_val (ovw_iter s) of
        (v, it) \<Rightarrow>
          (Inr (repr_list r (ovw_buffer s) @ ''  '' @ v @ '' ''), s\<lparr>ovw_iter := it\<rparr>))"

section \<open>Sequences of calls\<close>

text \<open>
  A caller's call: \<^verbatim>\<open>enqueue(item)\<close>, which returns \<^verbatim>\<open>None\<close>, or \<^verbatim>\<open>dequeue()\<close>. A
  sequence of calls is run from left to right; a call that raises is taken as caught by the
  caller, who goes on with the object as the call left it. \<open>run\<close> gives the outcome of
  every call and the final state.
\<close>

datatype 'a call = Enqueue "'a pyval" | Dequeue

fun BufferDynamic_call ::
  "'a BufferDynamic \<Rightarrow> 'a call \<Rightarrow> ('a pyval, 'a BufferDynamic) outcome" where
  "BufferDynamic_call s (Enqueue item) =
     (case BufferDynamic_enqueue s item of (r, s') \<Rightarrow> (map_sum id (\<lambda>_. None) r, s'))"
| "BufferDynamic_call s Dequeue = BufferDynamic_dequeue s"

fun BufferFixed_call ::
  "'a BufferFixed \<Rightarrow> 'a call \<Rightarrow> ('a pyval, 'a BufferFixed) outcome" where
  "BufferFixed_call s (Enqueue item) =
     (case BufferFixed_enqueue s item of (r, s') \<Rightarrow> (map_sum id (\<lambda>_. None) r, s'))"
| "BufferFixed_call s Dequeue = BufferFixed_dequeue s"

fun BufferFixedOverwrite_call ::
  "'a BufferFixedOverwrite \<Rightarrow> 'a call \<Rightarrow> ('a pyval, 'a BufferFixedOverwrite) outcome" where
  "BufferFixedOverwrite_call s (Enqueue item) =
     (case BufferFixedOverwrite_enqueue s item of (r, s') \<Rightarrow> (map_sum id (\<lambda>_. None) r, s'))"
| "BufferFixedOverwrite_call s Dequeue = BufferFixedOverwrite_dequeue s"

fun run :: "('s \<Rightarrow> 'c \<Rightarrow> 'r \<times> 's) \<Rightarrow> 's \<Rightarrow> 'c list \<Rightarrow> 'r list \<times> 's" where
  "run f s [] = ([], s)"
| "run f s (c # cs) =
     (case f s c of (r, s') \<Rightarrow> (case run f s' cs of (rs, s'') \<Rightarrow> (r # rs, s'')))"

text \<open>The states the object goes through: the one before each call, then the last.\<close>

fun states :: "('s \<Rightarrow> 'c \<Rightarrow> 'r \<times> 's) \<Rightarrow> 's \<Rightarrow> 'c list \<Rightarrow> 's list" where
  "states f s [] = [s]"
| "states f s (c # cs) = s # states f (snd (f s c)) cs"

text \<open>Strictly interleaved calls: \<^verbatim>\<open>enqueue(x); dequeue()\<close> for each item in turn.\<close>

fun interleave :: "'a pyval list \<Rightarrow> 'a call list" where
  "interleave [] = []"
| "interleave (x # xs) = Enqueue x # Dequeue # interleave xs"

section \<open>Invariants and the queue a state stands for\<close>

text \<open>
  The states BufferFixed reaches from a positive capacity: the storage has \<^verbatim>\<open>max_size\<close>
  slots, \<^verbatim>\<open>head\<close> is an index into it, \<^verbatim>\<open>size\<close> is between 0 and \<^verbatim>\<open>max_size\<close>, and
  \<^verbatim>\<open>tail\<close> is \<^verbatim>\<open>size\<close> slots after \<^verbatim>\<open>head\<close>, modulo \<^verbatim>\<open>max_size\<close>. The queue such a state
  stands for is read off the storage from \<^verbatim>\<open>head\<close> on, wrapping around.
\<close>

definition fix_inv :: "'a BufferFixed \<Rightarrow> bool" where
  "fix_inv s =
     (1 \<le> fix_max_size s
      \<and> int (length (fix_buffer s)) = fix_max_size s
      \<and> 0 \<le> fix_head s \<and> fix_head s < fix_max_size s
      \<and> 0 \<le> fix_size s \<and> fix_size s \<le> fix_max_size s
      \<and> fix_tail s = (fix_head s + fix_size s) mod fix_max_size s)"

definition fix_items :: "'a BufferFixed \<Rightarrow> 'a pyval list" where
  "fix_items s =
     map (\<lambda>i. fix_buffer s ! nat ((fix_head s + int i) mod fix_max_size s))
       [0..<nat (fix_size s)]"

text \<open>
  BufferDynamic is the same ring once the storage has \<^verbatim>\<open>max_size\<close> slots. Before that the
  storage is shorter, nothing has wrapped, and the live items are its last \<^verbatim>\<open>size\<close> slots.
\<close>

definition dyn_inv :: "'a BufferDynamic \<Rightarrow> bool" where
  "dyn_inv s =
     (1 \<le> dyn_max_size s
      \<and> int (length (dyn_buffer s)) \<le> dyn_max_size s
      \<and> 0 \<le> dyn_head s \<and> dyn_head s < dyn_max_size s
      \<and> 0 \<le> dyn_size s \<and> dyn_size s \<le> dyn_max_size s
      \<and> dyn_tail s = (dyn_head s + dyn_size s) mod dyn_max_size s
      \<and> (int (length (dyn_buffer s)) = dyn_max_size s
          \<or> dyn_head s + dyn_size s = int (length (dyn_buffer s))))"

definition dyn_items :: "'a BufferDynamic \<Rightarrow> 'a pyval list" where
  "dyn_items s =
     map (\<lambda>i. dyn_buffer s ! nat ((dyn_head s + int i) mod dyn_max_size s))
       [0..<nat (dyn_size s)]"

text \<open>
  The states BufferFixedOverwrite reaches from a positive capacity: both indices of the
  iterator stay between 0 and \<^verbatim>\<open>max_index\<close>, the last index of the storage.
\<close>

definition ovw_inv :: "'a BufferFixedOverwrite \<Rightarrow> bool" where
  "ovw_inv s =
     (1 \<le> ovw_max_size s
      \<and> int (length (ovw_buffer s)) = ovw_max_size s
      \<and> max_index (ovw_iter s) = ovw_max_size s - 1
      \<and> 0 \<le> in_index (ovw_iter s) \<and> in_index (ovw_iter s) \<le> max_index (ovw_iter s)
      \<and> 0 \<le> out_index (ovw_iter s) \<and> out_index (ovw_iter s) \<le> max_index (ovw_iter s)
      \<and> 0 \<le> ovw_size s)"

text \<open>
  The number of \<^verbatim>\<open>enqueue\<close> calls in a sequence, and the largest element of a list of
  integers (used on the values \<^verbatim>\<open>size\<close> takes along a sequence of calls).
\<close>

fun is_enqueue :: "'a call \<Rightarrow> bool" where
  "is_enqueue (Enqueue x) = True"
| "is_enqueue Dequeue = False"

definition enqueues :: "'a call list \<Rightarrow> nat" where
  "enqueues cs = length (filter is_enqueue cs)"

fun maximum :: "int list \<Rightarrow> int" where
  "maximum [] = 0"
| "maximum [x] = x"
| "maximum (x # y # ys) = max x (maximum (y # ys))"

section \<open>Unfolding lemmas and list facts\<close>

lemmas py_defs = py_setitem_def py_getitem_def py_index_def py_mod_def

lemmas fix_defs = BufferFixed_enqueue_def BufferFixed_dequeue_def BufferFixed_is_full_def
  BufferFixed_is_empty_def py_defs

lemmas dyn_defs = BufferDynamic_enqueue_def BufferDynamic_dequeue_def BufferDynamic_is_full_def
  BufferDynamic_is_empty_def py_defs

lemmas ovw_defs = BufferFixedOverwrite_init_def BufferFixedOverwrite_enqueue_def
  BufferFixedOverwrite_dequeue_def BufferFixedOverwrite_is_empty_def Iterator_init_def
  Iterator_get_in_def Iterator_get_out_def py_setitem_def py_getitem_def py_index_def

lemma replicate_update_same: "(replicate n v)[i := v] = replicate n v"
  by (induction n arbitrary: i) (auto split: nat.split)

lemma replicate_update_clear:
  "i \<noteq> j \<Longrightarrow> (replicate n v)[i := x, j := v] = (replicate n v)[i := x]"
  by (induction n arbitrary: i j) (auto split: nat.split simp: replicate_update_same)

lemma mod_shift_distinct:
  fixes h i k N :: int
  assumes "i < k" and "k - i < N"
  shows "(h + i) mod N \<noteq> (h + k) mod N"
proof
  assume "(h + i) mod N = (h + k) mod N"
  then have "N dvd (h + k) - (h + i)"
    by (metis mod_eq_dvd_iff)
  then have "N dvd k - i" by simp
  moreover have "0 < k - i" using assms by simp
  ultimately show False using assms(2) by (meson zdvd_not_zless)
qed

lemma nat_mod_shift_distinct:
  fixes h i k N :: int
  assumes "0 < N" and "i < k" and "k - i < N"
  shows "nat ((h + i) mod N) \<noteq> nat ((h + k) mod N)"
  using mod_shift_distinct [OF assms(2,3), of h] assms(1)
  by (simp add: eq_nat_nat_iff)

section \<open>Failed calls leave the state alone\<close>

lemma fix_enqueue_full_iff:
  "fst (BufferFixed_enqueue f x) = Inl (Exception ''Buffer is full'') \<longleftrightarrow> BufferFixed_is_full f"
  by (simp add: fix_defs Let_def split: sum.split)

lemma fix_dequeue_empty_iff:
  "fst (BufferFixed_dequeue f) = Inl (Exception ''Buffer is empty'') \<longleftrightarrow> BufferFixed_is_empty f"
  by (simp add: fix_defs Let_def split: sum.split)

lemma dyn_enqueue_full_iff:
  "fst (BufferDynamic_enqueue d x) = Inl (Exception ''Buffer is full'')
     \<longleftrightarrow> BufferDynamic_is_full d"
  by (simp add: dyn_defs Let_def split: sum.split)

lemma dyn_dequeue_empty_iff:
  "fst (BufferDynamic_dequeue d) = Inl (Exception ''Buffer is empty'')
     \<longleftrightarrow> BufferDynamic_is_empty d"
  by (simp add: dyn_defs Let_def split: sum.split)

text \<open>
  Claim C6. For BufferFixed and BufferDynamic, \<^verbatim>\<open>enqueue\<close> raises "Buffer is full" exactly
  when \<^verbatim>\<open>is_full()\<close> holds and \<^verbatim>\<open>dequeue\<close> raises "Buffer is empty" exactly when
  \<^verbatim>\<open>is_empty()\<close> holds, and in both cases the whole state (storage, head, tail, size) after
  the call is the state before it.
\<close>

theorem failed_call_keeps_state:
  "(fst (BufferFixed_enqueue f x) = Inl (Exception ''Buffer is full'') \<longleftrightarrow> BufferFixed_is_full f)
   \<and> (BufferFixed_is_full f \<longrightarrow>
        BufferFixed_enqueue f x = (Inl (Exception ''Buffer is full''), f))
   \<and> (fst (BufferFixed_dequeue f) = Inl (Exception ''Buffer is empty'')
        \<longleftrightarrow> BufferFixed_is_empty f)
   \<and> (BufferFixed_is_empty f \<longrightarrow>
        BufferFixed_dequeue f = (Inl (Exception ''Buffer is empty''), f))
   \<and> (fst (BufferDynamic_enqueue d y) = Inl (Exception ''Buffer is full'')
        \<longleftrightarrow> BufferDynamic_is_full d)
   \<and> (BufferDynamic_is_full d \<longrightarrow>
        BufferDynamic_enqueue d y = (Inl (Exception ''Buffer is full''), d))
   \<and> (fst (BufferDynamic_dequeue d) = Inl (Exception ''Buffer is empty'')
        \<longleftrightarrow> BufferDynamic_is_empty d)
   \<and> (BufferDynamic_is_empty d \<longrightarrow>
        BufferDynamic_dequeue d = (Inl (Exception ''Buffer is empty''), d))"
  by (simp add: fix_enqueue_full_iff fix_dequeue_empty_iff dyn_enqueue_full_iff
        dyn_dequeue_empty_iff)
     (simp add: BufferFixed_enqueue_def BufferFixed_dequeue_def BufferDynamic_enqueue_def
        BufferDynamic_dequeue_def)

theorem failed_call_keeps_state_witness:
  "BufferFixed_is_full
     \<lparr>fix_buffer = [Some (1::int), Some 2], fix_max_size = 2, fix_head = 0, fix_tail = 0,
      fix_size = 2\<rparr>
   \<and> BufferFixed_enqueue
       \<lparr>fix_buffer = [Some (1::int), Some 2], fix_max_size = 2, fix_head = 0, fix_tail = 0,
        fix_size = 2\<rparr> (Some 3)
     = (Inl (Exception ''Buffer is full''),
        \<lparr>fix_buffer = [Some 1, Some 2], fix_max_size = 2, fix_head = 0, fix_tail = 0,
         fix_size = 2\<rparr>)
   \<and> BufferFixed_is_empty (BufferFixed_init 2 :: int BufferFixed)
   \<and> BufferFixed_dequeue (BufferFixed_init 2 :: int BufferFixed)
     = (Inl (Exception ''Buffer is empty''), BufferFixed_init 2)
   \<and> BufferDynamic_is_full
     \<lparr>dyn_buffer = [Some (1::int), Some 2], dyn_max_size = 2, dyn_head = 0, dyn_tail = 0,
      dyn_size = 2\<rparr>
   \<and> BufferDynamic_enqueue
       \<lparr>dyn_buffer = [Some (1::int), Some 2], dyn_max_size = 2, dyn_head = 0, dyn_tail = 0,
        dyn_size = 2\<rparr> (Some 3)
     = (Inl (Exception ''Buffer is full''),
        \<lparr>dyn_buffer = [Some 1, Some 2], dyn_max_size = 2, dyn_head = 0, dyn_tail = 0,
         dyn_size = 2\<rparr>)
   \<and> BufferDynamic_is_empty (BufferDynamic_init 2 :: int BufferDynamic)
   \<and> BufferDynamic_dequeue (BufferDynamic_init 2 :: int BufferDynamic)
     = (Inl (Exception ''Buffer is empty''), BufferDynamic_init 2)"
proof -
  let ?F = "\<lparr>fix_buffer = [Some (1::int), Some 2], fix_max_size = 2, fix_head = 0,
             fix_tail = 0, fix_size = 2\<rparr>"
  let ?D = "\<lparr>dyn_buffer = [Some (1::int), Some 2], dyn_max_size = 2, dyn_head = 0,
             dyn_tail = 0, dyn_size = 2\<rparr>"
  have full: "BufferFixed_is_full ?F" "BufferDynamic_is_full ?D"
    by (simp_all add: BufferFixed_is_full_def BufferDynamic_is_full_def)
  have empty: "BufferFixed_is_empty (BufferFixed_init 2 :: int BufferFixed)"
    "BufferDynamic_is_empty (BufferDynamic_init 2 :: int BufferDynamic)"
    by (simp_all add: BufferFixed_is_empty_def BufferDynamic_is_empty_def BufferFixed_init_def
        BufferDynamic_init_def)
  from failed_call_keeps_state [of ?F "Some 3" ?D "Some 3"] full
  have a: "BufferFixed_enqueue ?F (Some 3) = (Inl (Exception ''Buffer is full''), ?F)"
    "BufferDynamic_enqueue ?D (Some 3) = (Inl (Exception ''Buffer is full''), ?D)"
    by blast+
  from failed_call_keeps_state
         [of "BufferFixed_init 2 :: int BufferFixed" None
             "BufferDynamic_init 2 :: int BufferDynamic" None] empty
  have b: "BufferFixed_dequeue (BufferFixed_init 2 :: int BufferFixed)
             = (Inl (Exception ''Buffer is empty''), BufferFixed_init 2)"
    "BufferDynamic_dequeue (BufferDynamic_init 2 :: int BufferDynamic)
             = (Inl (Exception ''Buffer is empty''), BufferDynamic_init 2)"
    by blast+
  from full empty a b show ?thesis by blast
qed

section \<open>Inspection\<close>

text \<open>
  Claim C8. \<^verbatim>\<open>get_buffer\<close> of each of the three classes only reads: the state after the call
  (storage, head, tail and size, and for the overwriting buffer the iterator with its two
  indices) is the state before it, whatever that state is.
\<close>

theorem get_buffer_keeps_state:
  "snd (BufferDynamic_get_buffer d) = d
   \<and> snd (BufferFixed_get_buffer f) = f
   \<and> snd (BufferFixedOverwrite_get_buffer r s) = s
   \<and> snd (Iterator_get_val (ovw_iter s)) = ovw_iter s"
  by (simp add: BufferDynamic_get_buffer_def BufferFixed_get_buffer_def
      BufferFixedOverwrite_get_buffer_def Iterator_get_val_def)

section \<open>BufferFixed is a FIFO queue\<close>

text \<open>
  On a state that satisfies the invariant, \<^verbatim>\<open>enqueue\<close> on a buffer that is not full
  returns normally and appends the item to the queue; \<^verbatim>\<open>dequeue\<close> on a buffer that is not
  empty returns the first item of the queue and removes it. Both keep the invariant.
\<close>

lemma fix_inv_init: "1 \<le> N \<Longrightarrow> fix_inv (BufferFixed_init N)"
  by (simp add: fix_inv_def BufferFixed_init_def)

lemma fix_items_init: "fix_items (BufferFixed_init N) = []"
  by (simp add: fix_items_def BufferFixed_init_def)

lemma length_fix_items: "length (fix_items s) = nat (fix_size s)"
  by (simp add: fix_items_def)

lemma fix_enqueue_eq:
  assumes "fix_inv s" and "\<not> BufferFixed_is_full s"
  shows "BufferFixed_enqueue s x =
           (Inr (), s\<lparr>fix_buffer := (fix_buffer s)[nat (fix_tail s) := x],
                      fix_tail := (fix_tail s + 1) mod fix_max_size s,
                      fix_size := fix_size s + 1\<rparr>)"
proof -
  from assms(1) have "0 \<le> fix_tail s" "fix_tail s < int (length (fix_buffer s))"
    by (simp_all add: fix_inv_def)
  moreover from assms(1) have "fix_max_size s \<noteq> 0" by (simp add: fix_inv_def)
  ultimately show ?thesis using assms(2)
    by (simp add: BufferFixed_enqueue_def py_defs Let_def)
qed

lemma fix_enqueue_inv:
  assumes "fix_inv s" and "\<not> BufferFixed_is_full s"
  shows "fix_inv (snd (BufferFixed_enqueue s x))"
  using assms
  by (simp add: fix_enqueue_eq) (simp add: fix_inv_def BufferFixed_is_full_def mod_simps add.assoc)

lemma fix_enqueue_items:
  assumes "fix_inv s" and "\<not> BufferFixed_is_full s"
  shows "fix_items (snd (BufferFixed_enqueue s x)) = fix_items s @ [x]"
proof -
  let ?N = "fix_max_size s" and ?h = "fix_head s" and ?b = "fix_buffer s"
  from assms have N: "0 < ?N" and sz: "0 \<le> fix_size s" "fix_size s < ?N"
    and t: "fix_tail s = (?h + fix_size s) mod ?N" and len: "int (length ?b) = ?N"
    by (simp_all add: fix_inv_def BufferFixed_is_full_def)
  have tl: "nat (fix_tail s) < length ?b"
    using N len t by (simp add: nat_less_iff)
  have old: "?b[nat (fix_tail s) := x] ! nat ((?h + int i) mod ?N) = ?b ! nat ((?h + int i) mod ?N)"
    if "i < nat (fix_size s)" for i
  proof -
    from that sz have "int i < fix_size s" "fix_size s - int i < ?N" by simp_all
    from nat_mod_shift_distinct [OF N this, of ?h] show ?thesis
      by (simp add: t)
  qed
  have new: "?b[nat (fix_tail s) := x] ! nat ((?h + fix_size s) mod ?N) = x"
    using tl by (simp add: t)
  have "nat (fix_size s + 1) = Suc (nat (fix_size s))" using sz by simp
  then show ?thesis
    using old new sz by (simp add: fix_enqueue_eq [OF assms] fix_items_def)
qed

lemma fix_dequeue_eq:
  assumes "fix_inv s" and "\<not> BufferFixed_is_empty s"
  shows "BufferFixed_dequeue s =
           (Inr (fix_buffer s ! nat (fix_head s)),
            s\<lparr>fix_buffer := (fix_buffer s)[nat (fix_head s) := None],
              fix_head := (fix_head s + 1) mod fix_max_size s,
              fix_size := fix_size s - 1\<rparr>)"
  using assms by (simp add: fix_inv_def BufferFixed_dequeue_def py_defs Let_def)

lemma fix_dequeue_inv:
  assumes "fix_inv s" and "\<not> BufferFixed_is_empty s"
  shows "fix_inv (snd (BufferFixed_dequeue s))"
proof -
  from assms have "((fix_head s + 1) mod fix_max_size s + (fix_size s - 1)) mod fix_max_size s
      = (fix_head s + fix_size s) mod fix_max_size s"
    by (simp add: mod_simps)
  with assms show ?thesis
    by (simp add: fix_dequeue_eq) (simp add: fix_inv_def BufferFixed_is_empty_def)
qed

lemma fix_dequeue_items:
  assumes "fix_inv s" and "\<not> BufferFixed_is_empty s"
  shows "fix_items s = fix_buffer s ! nat (fix_head s) # fix_items (snd (BufferFixed_dequeue s))"
proof -
  let ?N = "fix_max_size s" and ?h = "fix_head s" and ?b = "fix_buffer s"
  from assms have N: "0 < ?N" and sz: "0 < fix_size s" "fix_size s \<le> ?N"
    and h: "0 \<le> ?h" "?h < ?N" and len: "int (length ?b) = ?N"
    by (simp_all add: fix_inv_def BufferFixed_is_empty_def)
  have hm: "?h mod ?N = ?h" using h by simp
  have rest: "?b[nat ?h := None] ! nat (((?h + 1) mod ?N + int i) mod ?N)
               = ?b ! nat ((?h + int (Suc i)) mod ?N)"
    if "i < nat (fix_size s - 1)" for i
  proof -
    have e: "((?h + 1) mod ?N + int i) mod ?N = (?h + int (Suc i)) mod ?N"
      by (simp add: mod_simps ac_simps)
    from that sz have "0 < int (Suc i)" "int (Suc i) - 0 < ?N" by simp_all
    from nat_mod_shift_distinct [OF N this, of ?h] show ?thesis
      by (simp add: e hm)
  qed
  have "nat (fix_size s) = Suc (nat (fix_size s - 1))" using sz by simp
  then have "[0..<nat (fix_size s)] = 0 # map Suc [0..<nat (fix_size s - 1)]"
    by (simp add: upt_conv_Cons map_Suc_upt del: upt_Suc)
  then show ?thesis
    using rest hm by (simp add: fix_dequeue_eq [OF assms] fix_items_def o_def)
qed

lemma fix_call_enqueue:
  assumes "fix_inv s" and "\<not> BufferFixed_is_full s"
  shows "fst (BufferFixed_call s (Enqueue x)) = Inr None"
    and "fix_inv (snd (BufferFixed_call s (Enqueue x)))"
    and "fix_items (snd (BufferFixed_call s (Enqueue x))) = fix_items s @ [x]"
    and "fix_max_size (snd (BufferFixed_call s (Enqueue x))) = fix_max_size s"
    and "fix_size (snd (BufferFixed_call s (Enqueue x))) = fix_size s + 1"
  using fix_enqueue_inv [OF assms, of x] fix_enqueue_items [OF assms, of x]
  by (simp_all add: split_beta) (simp_all add: fix_enqueue_eq [OF assms])

lemma fix_call_dequeue:
  assumes "fix_inv s" and "\<not> BufferFixed_is_empty s"
  shows "fst (BufferFixed_call s Dequeue) = Inr (hd (fix_items s))"
    and "fix_inv (snd (BufferFixed_call s Dequeue))"
    and "fix_items (snd (BufferFixed_call s Dequeue)) = tl (fix_items s)"
    and "fix_max_size (snd (BufferFixed_call s Dequeue)) = fix_max_size s"
    and "fix_size (snd (BufferFixed_call s Dequeue)) = fix_size s - 1"
  using fix_dequeue_inv [OF assms] fix_dequeue_items [OF assms]
  by (simp_all add: fix_dequeue_eq [OF assms])

lemma fix_call_inv:
  assumes "fix_inv s"
  shows "fix_inv (snd (BufferFixed_call s c))
         \<and> fix_max_size (snd (BufferFixed_call s c)) = fix_max_size s"
proof (cases c)
  case (Enqueue x)
  show ?thesis
  proof (cases "BufferFixed_is_full s")
    case True
    with assms Enqueue show ?thesis by (simp add: BufferFixed_enqueue_def)
  next
    case False
    with assms Enqueue fix_call_enqueue(2,4) [OF assms False] show ?thesis by blast
  qed
next
  case Dequeue
  show ?thesis
  proof (cases "BufferFixed_is_empty s")
    case True
    with assms Dequeue show ?thesis by (simp add: BufferFixed_dequeue_def)
  next
    case False
    with assms Dequeue fix_call_dequeue(2,4) [OF assms False] show ?thesis by blast
  qed
qed

lemma fix_states_inv:
  "fix_inv s \<Longrightarrow>
     list_all (\<lambda>t. fix_inv t \<and> fix_max_size t = fix_max_size s) (states BufferFixed_call s cs)"
proof (induction cs arbitrary: s)
  case Nil
  then show ?case by simp
next
  case (Cons c cs)
  from fix_call_inv [OF Cons.prems, of c] Cons.IH [of "snd (BufferFixed_call s c)"] Cons.prems
  show ?case by simp
qed

lemma fix_run_enqueues:
  "fix_inv s \<Longrightarrow> fix_size s + int (length xs) \<le> fix_max_size s \<Longrightarrow>
     fst (run BufferFixed_call s (map Enqueue xs)) = replicate (length xs) (Inr None)
     \<and> fix_inv (snd (run BufferFixed_call s (map Enqueue xs)))
     \<and> fix_items (snd (run BufferFixed_call s (map Enqueue xs))) = fix_items s @ xs
     \<and> fix_max_size (snd (run BufferFixed_call s (map Enqueue xs))) = fix_max_size s
     \<and> fix_size (snd (run BufferFixed_call s (map Enqueue xs))) = fix_size s + int (length xs)"
proof (induction xs arbitrary: s)
  case Nil
  then show ?case by simp
next
  case (Cons x xs)
  from Cons.prems have nf: "\<not> BufferFixed_is_full s"
    by (simp add: BufferFixed_is_full_def)
  note step = fix_call_enqueue [OF Cons.prems(1) nf, of x]
  from Cons.prems step have "fix_size (snd (BufferFixed_call s (Enqueue x))) + int (length xs)
      \<le> fix_max_size (snd (BufferFixed_call s (Enqueue x)))"
    by simp
  from Cons.IH [OF step(2) this] step show ?case
    by (simp add: split_beta)
qed

lemma fix_run_dequeues:
  "fix_inv s \<Longrightarrow> n \<le> length (fix_items s) \<Longrightarrow>
     fst (run BufferFixed_call s (replicate n Dequeue)) = map Inr (take n (fix_items s))
     \<and> fix_inv (snd (run BufferFixed_call s (replicate n Dequeue)))
     \<and> fix_items (snd (run BufferFixed_call s (replicate n Dequeue))) = drop n (fix_items s)"
proof (induction n arbitrary: s)
  case 0
  then show ?case by simp
next
  case (Suc n)
  from Suc.prems have ne: "\<not> BufferFixed_is_empty s"
    by (auto simp add: BufferFixed_is_empty_def length_fix_items)
  note step = fix_call_dequeue [OF Suc.prems(1) ne]
  from Suc.prems have nonempty: "fix_items s \<noteq> []" by auto
  with Suc.prems step have "n \<le> length (fix_items (snd (BufferFixed_call s Dequeue)))"
    by simp
  from Suc.IH [OF step(2) this] step nonempty show ?case
    by (simp add: split_beta take_Suc drop_Suc del: BufferFixed_call.simps)
qed

lemma fix_run_interleave:
  "fix_inv s \<Longrightarrow> fix_size s = 0 \<Longrightarrow>
     fst (run BufferFixed_call s (interleave xs)) = concat (map (\<lambda>x. [Inr None, Inr x]) xs)"
proof (induction xs arbitrary: s)
  case Nil
  then show ?case by simp
next
  case (Cons x xs)
  let ?enq = "snd (BufferFixed_call s (Enqueue x))"
  let ?deq = "snd (BufferFixed_call ?enq Dequeue)"
  from Cons.prems have nf: "\<not> BufferFixed_is_full s"
    by (simp add: BufferFixed_is_full_def fix_inv_def)
  note e = fix_call_enqueue [OF Cons.prems(1) nf, of x]
  from Cons.prems have "fix_items s = []" by (simp add: fix_items_def)
  with e have items1: "fix_items ?enq = [x]" by simp
  from e Cons.prems have ne: "\<not> BufferFixed_is_empty ?enq"
    by (simp add: BufferFixed_is_empty_def)
  note d = fix_call_dequeue [OF e(2) ne]
  from d e Cons.prems have "fix_size ?deq = 0" by simp
  from Cons.IH [OF d(2) this] e(1) d(1) items1 show ?case
    by (simp add: split_beta del: BufferFixed_call.simps)
qed

lemma fix_fill_drain:
  "fst (run BufferFixed_call (BufferFixed_init (int (length xs))) (map Enqueue xs))
     = replicate (length xs) (Inr None)
   \<and> fst (BufferFixed_enqueue
           (snd (run BufferFixed_call (BufferFixed_init (int (length xs))) (map Enqueue xs))) y)
     = Inl (Exception ''Buffer is full'')
   \<and> fst (run BufferFixed_call
           (snd (run BufferFixed_call (BufferFixed_init (int (length xs))) (map Enqueue xs)))
           (replicate (length xs) Dequeue))
     = map Inr xs"
proof (cases "xs = []")
  case True
  then show ?thesis
    by (simp add: BufferFixed_enqueue_def BufferFixed_is_full_def BufferFixed_init_def)
next
  case False
  let ?fresh = "BufferFixed_init (int (length xs)) :: 'a BufferFixed"
  let ?filled = "snd (run BufferFixed_call ?fresh (map Enqueue xs))"
  from False have inv0: "fix_inv ?fresh" by (intro fix_inv_init) (cases xs; simp)
  have "fix_size ?fresh + int (length xs) \<le> fix_max_size ?fresh"
    by (simp add: BufferFixed_init_def)
  from fix_run_enqueues [OF inv0 this]
  have rs: "fst (run BufferFixed_call ?fresh (map Enqueue xs)) = replicate (length xs) (Inr None)"
    and inv: "fix_inv ?filled" and items: "fix_items ?filled = xs"
    and full: "fix_size ?filled = fix_max_size ?filled"
    by (simp_all add: fix_items_init) (simp_all add: BufferFixed_init_def)
  from full have "fst (BufferFixed_enqueue ?filled y) = Inl (Exception ''Buffer is full'')"
    by (simp add: BufferFixed_enqueue_def BufferFixed_is_full_def)
  moreover from fix_run_dequeues [OF inv, of "length xs"] items
  have "fst (run BufferFixed_call ?filled (replicate (length xs) Dequeue)) = map Inr xs"
    by simp
  ultimately show ?thesis using rs by blast
qed

section \<open>BufferDynamic is a FIFO queue\<close>

text \<open>The same facts for BufferDynamic, whose storage grows by one slot per call at first.\<close>

lemma dyn_inv_init: "1 \<le> N \<Longrightarrow> dyn_inv (BufferDynamic_init N)"
  by (simp add: dyn_inv_def BufferDynamic_init_def)

lemma dyn_items_init: "dyn_items (BufferDynamic_init N) = []"
  by (simp add: dyn_items_def BufferDynamic_init_def)

lemma length_dyn_items: "length (dyn_items s) = nat (dyn_size s)"
  by (simp add: dyn_items_def)

lemma dyn_enqueue_eq:
  assumes "dyn_inv s" and "\<not> BufferDynamic_is_full s"
  shows "BufferDynamic_enqueue s x =
           (Inr (), s\<lparr>dyn_buffer :=
                        (if int (length (dyn_buffer s)) < dyn_max_size s then dyn_buffer s @ [x]
                         else (dyn_buffer s)[nat (dyn_tail s) := x]),
                      dyn_tail := (dyn_tail s + 1) mod dyn_max_size s,
                      dyn_size := dyn_size s + 1\<rparr>)"
proof (cases "int (length (dyn_buffer s)) < dyn_max_size s")
  case True
  with assms show ?thesis
    by (simp add: BufferDynamic_enqueue_def py_defs Let_def dyn_inv_def)
next
  case False
  with assms(1) have "0 \<le> dyn_tail s" "dyn_tail s < int (length (dyn_buffer s))"
    "dyn_max_size s \<noteq> 0"
    by (simp_all add: dyn_inv_def)
  with False assms(2) show ?thesis
    by (simp add: BufferDynamic_enqueue_def py_defs Let_def)
qed

lemma dyn_enqueue_inv:
  assumes "dyn_inv s" and "\<not> BufferDynamic_is_full s"
  shows "dyn_inv (snd (BufferDynamic_enqueue s x))"
proof -
  have "((dyn_head s + dyn_size s) mod dyn_max_size s + 1) mod dyn_max_size s
        = (dyn_head s + (dyn_size s + 1)) mod dyn_max_size s"
    by (simp add: mod_simps ac_simps)
  with assms show ?thesis
    by (simp add: dyn_enqueue_eq) (auto simp add: dyn_inv_def BufferDynamic_is_full_def)
qed

lemma dyn_enqueue_items:
  assumes "dyn_inv s" and "\<not> BufferDynamic_is_full s"
  shows "dyn_items (snd (BufferDynamic_enqueue s x)) = dyn_items s @ [x]"
proof -
  let ?N = "dyn_max_size s" and ?h = "dyn_head s" and ?b = "dyn_buffer s"
  let ?b' = "if int (length ?b) < ?N then ?b @ [x] else ?b[nat (dyn_tail s) := x]"
  from assms have N: "0 < ?N" and sz: "0 \<le> dyn_size s" "dyn_size s < ?N"
    and h: "0 \<le> ?h"
    and t: "dyn_tail s = (?h + dyn_size s) mod ?N" and len: "int (length ?b) \<le> ?N"
    and grow: "int (length ?b) = ?N \<or> ?h + dyn_size s = int (length ?b)"
    by (simp_all add: dyn_inv_def BufferDynamic_is_full_def)
  have old: "?b' ! nat ((?h + int i) mod ?N) = ?b ! nat ((?h + int i) mod ?N)"
    if "i < nat (dyn_size s)" for i
  proof (cases "int (length ?b) < ?N")
    case True
    with grow that h have "?h + int i < int (length ?b)" by simp
    with True h show ?thesis by (simp add: nth_append nat_less_iff)
  next
    case False
    from that sz have "int i < dyn_size s" "dyn_size s - int i < ?N" by simp_all
    from nat_mod_shift_distinct [OF N this, of ?h] False show ?thesis
      by (simp add: t)
  qed
  have new: "?b' ! nat ((?h + dyn_size s) mod ?N) = x"
  proof (cases "int (length ?b) < ?N")
    case True
    with grow have "?h + dyn_size s = int (length ?b)" by simp
    with True show ?thesis by simp
  next
    case False
    with len have "int (length ?b) = ?N" by simp
    then have "nat ((?h + dyn_size s) mod ?N) < length ?b"
      using N by (simp add: nat_less_iff)
    with False show ?thesis by (simp add: t)
  qed
  have "nat (dyn_size s + 1) = Suc (nat (dyn_size s))" using sz by simp
  then show ?thesis
    using old new sz by (simp add: dyn_enqueue_eq [OF assms] dyn_items_def)
qed

lemma dyn_dequeue_eq:
  assumes "dyn_inv s" and "\<not> BufferDynamic_is_empty s"
  shows "BufferDynamic_dequeue s =
           (Inr (dyn_buffer s ! nat (dyn_head s)),
            s\<lparr>dyn_buffer := (dyn_buffer s)[nat (dyn_head s) := None],
              dyn_head := (dyn_head s + 1) mod dyn_max_size s,
              dyn_size := dyn_size s - 1\<rparr>)"
proof -
  from assms have "dyn_head s < int (length (dyn_buffer s))"
    by (auto simp add: dyn_inv_def BufferDynamic_is_empty_def)
  with assms show ?thesis
    by (simp add: dyn_inv_def BufferDynamic_dequeue_def py_defs Let_def)
qed

lemma dyn_dequeue_inv:
  assumes "dyn_inv s" and "\<not> BufferDynamic_is_empty s"
  shows "dyn_inv (snd (BufferDynamic_dequeue s))"
proof -
  let ?N = "dyn_max_size s" and ?h = "dyn_head s"
  have t: "((?h + 1) mod ?N + (dyn_size s - 1)) mod ?N = (?h + dyn_size s) mod ?N"
    by (simp add: mod_simps)
  have g: "(?h + 1) mod ?N + (dyn_size s - 1) = int (length (dyn_buffer s))"
    if "int (length (dyn_buffer s)) \<noteq> ?N"
  proof -
    from that assms have "?h + dyn_size s = int (length (dyn_buffer s))"
      "int (length (dyn_buffer s)) < ?N" "0 < dyn_size s" "0 \<le> ?h"
      by (auto simp add: dyn_inv_def BufferDynamic_is_empty_def)
    then have "(?h + 1) mod ?N = ?h + 1" by simp
    with \<open>?h + dyn_size s = int (length (dyn_buffer s))\<close> show ?thesis by simp
  qed
  from assms t g show ?thesis
    by (simp add: dyn_dequeue_eq) (auto simp add: dyn_inv_def BufferDynamic_is_empty_def)
qed

lemma dyn_dequeue_items:
  assumes "dyn_inv s" and "\<not> BufferDynamic_is_empty s"
  shows "dyn_items s = dyn_buffer s ! nat (dyn_head s) # dyn_items (snd (BufferDynamic_dequeue s))"
proof -
  let ?N = "dyn_max_size s" and ?h = "dyn_head s" and ?b = "dyn_buffer s"
  from assms have N: "0 < ?N" and sz: "0 < dyn_size s" "dyn_size s \<le> ?N"
    and h: "0 \<le> ?h" "?h < ?N"
    by (simp_all add: dyn_inv_def BufferDynamic_is_empty_def)
  have hm: "?h mod ?N = ?h" using h by simp
  have rest: "?b[nat ?h := None] ! nat (((?h + 1) mod ?N + int i) mod ?N)
               = ?b ! nat ((?h + int (Suc i)) mod ?N)"
    if "i < nat (dyn_size s - 1)" for i
  proof -
    have e: "((?h + 1) mod ?N + int i) mod ?N = (?h + int (Suc i)) mod ?N"
      by (simp add: mod_simps ac_simps)
    from that sz have "0 < int (Suc i)" "int (Suc i) - 0 < ?N" by simp_all
    from nat_mod_shift_distinct [OF N this, of ?h] show ?thesis
      by (simp add: e hm)
  qed
  have "nat (dyn_size s) = Suc (nat (dyn_size s - 1))" using sz by simp
  then have "[0..<nat (dyn_size s)] = 0 # map Suc [0..<nat (dyn_size s - 1)]"
    by (simp add: upt_conv_Cons map_Suc_upt del: upt_Suc)
  then show ?thesis
    using rest hm by (simp add: dyn_dequeue_eq [OF assms] dyn_items_def o_def)
qed

lemma dyn_call_enqueue:
  assumes "dyn_inv s" and "\<not> BufferDynamic_is_full s"
  shows "fst (BufferDynamic_call s (Enqueue x)) = Inr None"
    and "dyn_inv (snd (BufferDynamic_call s (Enqueue x)))"
    and "dyn_items (snd (BufferDynamic_call s (Enqueue x))) = dyn_items s @ [x]"
    and "dyn_max_size (snd (BufferDynamic_call s (Enqueue x))) = dyn_max_size s"
    and "dyn_size (snd (BufferDynamic_call s (Enqueue x))) = dyn_size s + 1"
  using dyn_enqueue_inv [OF assms, of x] dyn_enqueue_items [OF assms, of x]
  by (simp_all add: split_beta) (simp_all add: dyn_enqueue_eq [OF assms])

lemma dyn_call_dequeue:
  assumes "dyn_inv s" and "\<not> BufferDynamic_is_empty s"
  shows "fst (BufferDynamic_call s Dequeue) = Inr (hd (dyn_items s))"
    and "dyn_inv (snd (BufferDynamic_call s Dequeue))"
    and "dyn_items (snd (BufferDynamic_call s Dequeue)) = tl (dyn_items s)"
    and "dyn_max_size (snd (BufferDynamic_call s Dequeue)) = dyn_max_size s"
    and "dyn_size (snd (BufferDynamic_call s Dequeue)) = dyn_size s - 1"
  using dyn_dequeue_inv [OF assms] dyn_dequeue_items [OF assms]
  by (simp_all add: dyn_dequeue_eq [OF assms])

lemma dyn_call_inv:
  assumes "dyn_inv s"
  shows "dyn_inv (snd (BufferDynamic_call s c))
         \<and> dyn_max_size (snd (BufferDynamic_call s c)) = dyn_max_size s"
proof (cases c)
  case (Enqueue x)
  show ?thesis
  proof (cases "BufferDynamic_is_full s")
    case True
    with assms Enqueue show ?thesis by (simp add: BufferDynamic_enqueue_def)
  next
    case False
    with assms Enqueue dyn_call_enqueue(2,4) [OF assms False] show ?thesis by blast
  qed
next
  case Dequeue
  show ?thesis
  proof (cases "BufferDynamic_is_empty s")
    case True
    with assms Dequeue show ?thesis by (simp add: BufferDynamic_dequeue_def)
  next
    case False
    with assms Dequeue dyn_call_dequeue(2,4) [OF assms False] show ?thesis by blast
  qed
qed

lemma dyn_states_inv:
  "dyn_inv s \<Longrightarrow>
     list_all (\<lambda>t. dyn_inv t \<and> dyn_max_size t = dyn_max_size s) (states BufferDynamic_call s cs)"
proof (induction cs arbitrary: s)
  case Nil
  then show ?case by simp
next
  case (Cons c cs)
  from dyn_call_inv [OF Cons.prems, of c] Cons.IH [of "snd (BufferDynamic_call s c)"] Cons.prems
  show ?case by simp
qed

lemma dyn_run_enqueues:
  "dyn_inv s \<Longrightarrow> dyn_size s + int (length xs) \<le> dyn_max_size s \<Longrightarrow>
     fst (run BufferDynamic_call s (map Enqueue xs)) = replicate (length xs) (Inr None)
     \<and> dyn_inv (snd (run BufferDynamic_call s (map Enqueue xs)))
     \<and> dyn_items (snd (run BufferDynamic_call s (map Enqueue xs))) = dyn_items s @ xs
     \<and> dyn_max_size (snd (run BufferDynamic_call s (map Enqueue xs))) = dyn_max_size s
     \<and> dyn_size (snd (run BufferDynamic_call s (map Enqueue xs))) = dyn_size s + int (length xs)"
proof (induction xs arbitrary: s)
  case Nil
  then show ?case by simp
next
  case (Cons x xs)
  from Cons.prems have nf: "\<not> BufferDynamic_is_full s"
    by (simp add: BufferDynamic_is_full_def)
  note step = dyn_call_enqueue [OF Cons.prems(1) nf, of x]
  from Cons.prems step have "dyn_size (snd (BufferDynamic_call s (Enqueue x))) + int (length xs)
      \<le> dyn_max_size (snd (BufferDynamic_call s (Enqueue x)))"
    by simp
  from Cons.IH [OF step(2) this] step show ?case
    by (simp add: split_beta)
qed

lemma dyn_run_dequeues:
  "dyn_inv s \<Longrightarrow> n \<le> length (dyn_items s) \<Longrightarrow>
     fst (run BufferDynamic_call s (replicate n Dequeue)) = map Inr (take n (dyn_items s))
     \<and> dyn_inv (snd (run BufferDynamic_call s (replicate n Dequeue)))
     \<and> dyn_items (snd (run BufferDynamic_call s (replicate n Dequeue))) = drop n (dyn_items s)"
proof (induction n arbitrary: s)
  case 0
  then show ?case by simp
next
  case (Suc n)
  from Suc.prems have ne: "\<not> BufferDynamic_is_empty s"
    by (auto simp add: BufferDynamic_is_empty_def length_dyn_items)
  note step = dyn_call_dequeue [OF Suc.prems(1) ne]
  from Suc.prems have nonempty: "dyn_items s \<noteq> []" by auto
  with Suc.prems step have "n \<le> length (dyn_items (snd (BufferDynamic_call s Dequeue)))"
    by simp
  from Suc.IH [OF step(2) this] step nonempty show ?case
    by (simp add: split_beta take_Suc drop_Suc del: BufferDynamic_call.simps)
qed

lemma dyn_run_interleave:
  "dyn_inv s \<Longrightarrow> dyn_size s = 0 \<Longrightarrow>
     fst (run BufferDynamic_call s (interleave xs)) = concat (map (\<lambda>x. [Inr None, Inr x]) xs)"
proof (induction xs arbitrary: s)
  case Nil
  then show ?case by simp
next
  case (Cons x xs)
  let ?enq = "snd (BufferDynamic_call s (Enqueue x))"
  let ?deq = "snd (BufferDynamic_call ?enq Dequeue)"
  from Cons.prems have nf: "\<not> BufferDynamic_is_full s"
    by (simp add: BufferDynamic_is_full_def dyn_inv_def)
  note e = dyn_call_enqueue [OF Cons.prems(1) nf, of x]
  from Cons.prems have "dyn_items s = []" by (simp add: dyn_items_def)
  with e have items1: "dyn_items ?enq = [x]" by simp
  from e Cons.prems have ne: "\<not> BufferDynamic_is_empty ?enq"
    by (simp add: BufferDynamic_is_empty_def)
  note d = dyn_call_dequeue [OF e(2) ne]
  from d e Cons.prems have "dyn_size ?deq = 0" by simp
  from Cons.IH [OF d(2) this] e(1) d(1) items1 show ?case
    by (simp add: split_beta del: BufferDynamic_call.simps)
qed

lemma dyn_fill_drain:
  "fst (run BufferDynamic_call (BufferDynamic_init (int (length xs))) (map Enqueue xs))
     = replicate (length xs) (Inr None)
   \<and> fst (BufferDynamic_enqueue
           (snd (run BufferDynamic_call (BufferDynamic_init (int (length xs))) (map Enqueue xs))) y)
     = Inl (Exception ''Buffer is full'')
   \<and> fst (run BufferDynamic_call
           (snd (run BufferDynamic_call (BufferDynamic_init (int (length xs))) (map Enqueue xs)))
           (replicate (length xs) Dequeue))
     = map Inr xs"
proof (cases "xs = []")
  case True
  then show ?thesis
    by (simp add: BufferDynamic_enqueue_def BufferDynamic_is_full_def BufferDynamic_init_def)
next
  case False
  let ?fresh = "BufferDynamic_init (int (length xs)) :: 'a BufferDynamic"
  let ?filled = "snd (run BufferDynamic_call ?fresh (map Enqueue xs))"
  from False have inv0: "dyn_inv ?fresh" by (intro dyn_inv_init) (cases xs; simp)
  have "dyn_size ?fresh + int (length xs) \<le> dyn_max_size ?fresh"
    by (simp add: BufferDynamic_init_def)
  from dyn_run_enqueues [OF inv0 this]
  have rs: "fst (run BufferDynamic_call ?fresh (map Enqueue xs)) = replicate (length xs) (Inr None)"
    and inv: "dyn_inv ?filled" and items: "dyn_items ?filled = xs"
    and full: "dyn_size ?filled = dyn_max_size ?filled"
    by (simp_all add: dyn_items_init) (simp_all add: BufferDynamic_init_def)
  from full have "fst (BufferDynamic_enqueue ?filled y) = Inl (Exception ''Buffer is full'')"
    by (simp add: BufferDynamic_enqueue_def BufferDynamic_is_full_def)
  moreover from dyn_run_dequeues [OF inv, of "length xs"] items
  have "fst (run BufferDynamic_call ?filled (replicate (length xs) Dequeue)) = map Inr xs"
    by simp
  ultimately show ?thesis using rs by blast
qed

section \<open>Filling and draining\<close>

text \<open>
  Claim C5. For BufferFixed and BufferDynamic of capacity \<open>N\<close>, and any \<open>N\<close> items \<open>xs\<close>
  (distinct or not): enqueueing them into a fresh buffer raises nothing; one more
  \<^verbatim>\<open>enqueue\<close> then raises "Buffer is full"; and \<open>N\<close> calls of \<^verbatim>\<open>dequeue\<close> instead return
  the items of \<open>xs\<close> in the order they were enqueued. \<^verbatim>\<open>dequeue\<close> on a fresh buffer, of any
  capacity, raises "Buffer is empty".
\<close>

theorem fifo_fill_and_drain:
  "(case run BufferFixed_call (BufferFixed_init (int (length xs))) (map Enqueue xs) of
      (rs, s) \<Rightarrow>
        rs = replicate (length xs) (Inr None)
        \<and> fst (BufferFixed_enqueue s y) = Inl (Exception ''Buffer is full'')
        \<and> fst (run BufferFixed_call s (replicate (length xs) Dequeue)) = map Inr xs)
   \<and> fst (BufferFixed_dequeue (BufferFixed_init M :: 'a BufferFixed))
       = Inl (Exception ''Buffer is empty'')
   \<and> (case run BufferDynamic_call (BufferDynamic_init (int (length xs))) (map Enqueue xs) of
      (rs, s) \<Rightarrow>
        rs = replicate (length xs) (Inr None)
        \<and> fst (BufferDynamic_enqueue s y) = Inl (Exception ''Buffer is full'')
        \<and> fst (run BufferDynamic_call s (replicate (length xs) Dequeue)) = map Inr xs)
   \<and> fst (BufferDynamic_dequeue (BufferDynamic_init M :: 'a BufferDynamic))
       = Inl (Exception ''Buffer is empty'')"
  using fix_fill_drain [of xs y] dyn_fill_drain [of xs y]
  by (simp add: split_beta BufferFixed_dequeue_def BufferFixed_is_empty_def BufferFixed_init_def
      BufferDynamic_dequeue_def BufferDynamic_is_empty_def BufferDynamic_init_def)

section \<open>Size bounds and interleaved calls on BufferFixed and BufferDynamic\<close>

text \<open>
  On these two classes \<^verbatim>\<open>size\<close> stays between 0 and the capacity along any sequence of
  calls, failed ones included, and strictly interleaved \<^verbatim>\<open>enqueue; dequeue\<close> rounds, however
  many, return each item right after it went in.
\<close>

lemma fix_size_bounds:
  assumes "1 \<le> N"
  shows "list_all (\<lambda>t. 0 \<le> fix_size t \<and> fix_size t \<le> N)
           (states BufferFixed_call (BufferFixed_init N) cs)"
proof -
  have "fix_max_size (BufferFixed_init N :: 'a BufferFixed) = N"
    by (simp add: BufferFixed_init_def)
  with fix_states_inv [OF fix_inv_init [OF assms], of cs] show ?thesis
    by (fastforce simp add: list_all_iff fix_inv_def)
qed

lemma dyn_size_bounds:
  assumes "1 \<le> N"
  shows "list_all (\<lambda>t. 0 \<le> dyn_size t \<and> dyn_size t \<le> N)
           (states BufferDynamic_call (BufferDynamic_init N) cs)"
proof -
  have "dyn_max_size (BufferDynamic_init N :: 'a BufferDynamic) = N"
    by (simp add: BufferDynamic_init_def)
  with dyn_states_inv [OF dyn_inv_init [OF assms], of cs] show ?thesis
    by (fastforce simp add: list_all_iff dyn_inv_def)
qed

lemma fix_interleave_fresh:
  assumes "1 \<le> N"
  shows "fst (run BufferFixed_call (BufferFixed_init N) (interleave xs))
           = concat (map (\<lambda>x. [Inr None, Inr x]) xs)"
  using fix_run_interleave [OF fix_inv_init [OF assms]]
  by (simp add: BufferFixed_init_def)

lemma dyn_interleave_fresh:
  assumes "1 \<le> N"
  shows "fst (run BufferDynamic_call (BufferDynamic_init N) (interleave xs))
           = concat (map (\<lambda>x. [Inr None, Inr x]) xs)"
  using dyn_run_interleave [OF dyn_inv_init [OF assms]]
  by (simp add: BufferDynamic_init_def)

section \<open>The storage of BufferDynamic\<close>

text \<open>
  While \<^verbatim>\<open>size\<close> stays below the capacity every \<^verbatim>\<open>enqueue\<close> succeeds, and it appends a slot
  as long as the storage is shorter than the capacity; \<^verbatim>\<open>dequeue\<close> overwrites a slot with
  \<^verbatim>\<open>None\<close> and never removes one.
\<close>

lemma dyn_storage_length:
  "dyn_inv s \<Longrightarrow>
   list_all (\<lambda>t. dyn_size t < dyn_max_size s) (states BufferDynamic_call s cs) \<Longrightarrow>
     int (length (dyn_buffer (snd (run BufferDynamic_call s cs))))
       = min (dyn_max_size s) (int (length (dyn_buffer s)) + int (enqueues cs))"
proof (induction cs arbitrary: s)
  case Nil
  then show ?case by (simp add: dyn_inv_def enqueues_def)
next
  case (Cons c cs)
  let ?enq = "snd (BufferDynamic_call s c)"
  note inv1 = dyn_call_inv [OF Cons.prems(1), of c]
  from Cons.prems(2) inv1
  have "list_all (\<lambda>t. dyn_size t < dyn_max_size ?enq) (states BufferDynamic_call ?enq cs)"
    by simp
  from Cons.IH [OF conjunct1 [OF inv1] this] inv1
  have ih: "int (length (dyn_buffer (snd (run BufferDynamic_call ?enq cs))))
       = min (dyn_max_size s) (int (length (dyn_buffer ?enq)) + int (enqueues cs))"
    by simp
  have len1: "int (length (dyn_buffer ?enq))
       = min (dyn_max_size s) (int (length (dyn_buffer s)) + (if is_enqueue c then 1 else 0))"
  proof (cases c)
    case (Enqueue x)
    from Cons.prems(2) have nf: "\<not> BufferDynamic_is_full s"
      by (simp add: BufferDynamic_is_full_def)
    from Cons.prems(1) have "int (length (dyn_buffer s)) \<le> dyn_max_size s"
      by (simp add: dyn_inv_def)
    then show ?thesis
      by (simp add: Enqueue dyn_enqueue_eq [OF Cons.prems(1) nf])
  next
    case Dequeue
    from Cons.prems(1) have le: "int (length (dyn_buffer s)) \<le> dyn_max_size s"
      by (simp add: dyn_inv_def)
    show ?thesis
    proof (cases "BufferDynamic_is_empty s")
      case True
      with le Dequeue show ?thesis by (simp add: BufferDynamic_dequeue_def)
    next
      case False
      with le Dequeue show ?thesis by (simp add: dyn_dequeue_eq [OF Cons.prems(1) False])
    qed
  qed
  let ?d = "if is_enqueue c then 1 else 0 :: int"
  have "snd (run BufferDynamic_call s (c # cs)) = snd (run BufferDynamic_call ?enq cs)"
    by (simp add: split_beta)
  then have "int (length (dyn_buffer (snd (run BufferDynamic_call s (c # cs)))))
       = min (dyn_max_size s)
           (min (dyn_max_size s) (int (length (dyn_buffer s)) + ?d) + int (enqueues cs))"
    by (simp only: ih len1)
  also have "\<dots> = min (dyn_max_size s) (int (length (dyn_buffer s)) + (?d + int (enqueues cs)))"
    by (simp add: min_def)
  also have "?d + int (enqueues cs) = int (enqueues (c # cs))"
    by (simp add: enqueues_def)
  finally show ?case .
qed

text \<open>
  Claim C4, at a failing input. Capacity 3, \<^verbatim>\<open>enqueue(1); dequeue(); enqueue(2)\<close>:
  \<^verbatim>\<open>size\<close> is 0, 1, 0, 1 along the way, below the capacity and never above 1, and the
  storage ends with two slots, \<^verbatim>\<open>[None, 2]\<close>: its length exceeds the largest value
  \<^verbatim>\<open>size\<close> has had. The class docstring says that the buffer shrinks as items are removed
  and that no memory is held for unused slots; \<^verbatim>\<open>dequeue\<close> keeps the cleared slot and the
  next \<^verbatim>\<open>enqueue\<close> appends another.
\<close>

theorem dynamic_storage_exceeds_max_size:
  "list_all (\<lambda>t. dyn_size t < 3)
     (states BufferDynamic_call (BufferDynamic_init 3)
        [Enqueue (Some (1::int)), Dequeue, Enqueue (Some 2)])
   \<and> maximum (map dyn_size
        (states BufferDynamic_call (BufferDynamic_init 3)
           [Enqueue (Some (1::int)), Dequeue, Enqueue (Some 2)])) = 1
   \<and> length (dyn_buffer (snd (run BufferDynamic_call (BufferDynamic_init 3)
           [Enqueue (Some (1::int)), Dequeue, Enqueue (Some 2)]))) = 2
   \<and> \<not> int (length (dyn_buffer (snd (run BufferDynamic_call (BufferDynamic_init 3)
           [Enqueue (Some (1::int)), Dequeue, Enqueue (Some 2)]))))
         \<le> maximum (map dyn_size
             (states BufferDynamic_call (BufferDynamic_init 3)
                [Enqueue (Some (1::int)), Dequeue, Enqueue (Some 2)]))"
  by code_simp

section \<open>BufferFixedOverwrite never raises\<close>

lemma ovw_inv_init: "1 \<le> N \<Longrightarrow> ovw_inv (BufferFixedOverwrite_init N)"
  by (simp add: ovw_inv_def BufferFixedOverwrite_init_def Iterator_init_def)

lemma ovw_enqueue_ok:
  assumes "ovw_inv s"
  shows "fst (BufferFixedOverwrite_enqueue s x) = Inr ()"
    and "ovw_inv (snd (BufferFixedOverwrite_enqueue s x))"
  using assms by (auto simp add: ovw_inv_def ovw_defs Let_def)

lemma ovw_dequeue_ok:
  assumes "ovw_inv s"
  shows "\<not> isl (fst (BufferFixedOverwrite_dequeue s))"
    and "ovw_inv (snd (BufferFixedOverwrite_dequeue s))"
  using assms by (auto simp add: ovw_inv_def ovw_defs Let_def)

lemma ovw_call_ok:
  assumes "ovw_inv s"
  shows "\<not> isl (fst (BufferFixedOverwrite_call s c))"
    and "ovw_inv (snd (BufferFixedOverwrite_call s c))"
  using ovw_enqueue_ok [OF assms] ovw_dequeue_ok [OF assms]
  by (cases c; simp add: split_beta)+

lemma ovw_run_ok:
  "ovw_inv s \<Longrightarrow>
     list_all (\<lambda>r. \<not> isl r) (fst (run BufferFixedOverwrite_call s cs))
     \<and> ovw_inv (snd (run BufferFixedOverwrite_call s cs))"
proof (induction cs arbitrary: s)
  case Nil
  then show ?case by simp
next
  case (Cons c cs)
  from ovw_call_ok [OF Cons.prems, of c] Cons.IH [of "snd (BufferFixedOverwrite_call s c)"]
  show ?case by (simp add: split_beta)
qed

text \<open>
  Claim C7. On a BufferFixedOverwrite constructed with a positive capacity, no call of any
  sequence of \<^verbatim>\<open>enqueue\<close> and \<^verbatim>\<open>dequeue\<close> calls raises, and \<^verbatim>\<open>enqueue\<close> on the state reached
  returns normally. On any state with \<^verbatim>\<open>is_empty()\<close> true, \<^verbatim>\<open>dequeue\<close> returns \<^verbatim>\<open>None\<close> and
  leaves the state as it was.
\<close>

theorem overwrite_never_raises:
  "(1 \<le> N \<longrightarrow>
      list_all (\<lambda>r. \<not> isl r)
        (fst (run BufferFixedOverwrite_call (BufferFixedOverwrite_init N) cs))
      \<and> fst (BufferFixedOverwrite_enqueue
            (snd (run BufferFixedOverwrite_call (BufferFixedOverwrite_init N) cs)) x) = Inr ())
   \<and> (BufferFixedOverwrite_is_empty s \<longrightarrow>
        BufferFixedOverwrite_dequeue s = (Inr None, s))"
proof (intro conjI impI)
  assume "1 \<le> N"
  then have reach: "list_all (\<lambda>r. \<not> isl r)
        (fst (run BufferFixedOverwrite_call (BufferFixedOverwrite_init N) cs))
      \<and> ovw_inv (snd (run BufferFixedOverwrite_call (BufferFixedOverwrite_init N) cs))"
    by (intro ovw_run_ok ovw_inv_init)
  then show "list_all (\<lambda>r. \<not> isl r)
        (fst (run BufferFixedOverwrite_call (BufferFixedOverwrite_init N) cs))"
    by blast
  from reach show "fst (BufferFixedOverwrite_enqueue
            (snd (run BufferFixedOverwrite_call (BufferFixedOverwrite_init N) cs)) x) = Inr ()"
    by (intro ovw_enqueue_ok(1)) blast
next
  assume "BufferFixedOverwrite_is_empty s"
  then show "BufferFixedOverwrite_dequeue s = (Inr None, s)"
    by (simp add: BufferFixedOverwrite_dequeue_def)
qed

theorem overwrite_never_raises_witness:
  "(1::int) \<le> 3
   \<and> list_all (\<lambda>r. \<not> isl r)
       (fst (run BufferFixedOverwrite_call (BufferFixedOverwrite_init 3)
              [Enqueue (Some (10::int)), Enqueue (Some 20), Enqueue (Some 30)]))
   \<and> fst (BufferFixedOverwrite_enqueue
            (snd (run BufferFixedOverwrite_call (BufferFixedOverwrite_init 3)
                   [Enqueue (Some (10::int)), Enqueue (Some 20), Enqueue (Some 30)]))
            (Some 40)) = Inr ()
   \<and> BufferFixedOverwrite_is_empty (BufferFixedOverwrite_init 3 :: int BufferFixedOverwrite)
   \<and> BufferFixedOverwrite_dequeue (BufferFixedOverwrite_init 3 :: int BufferFixedOverwrite)
       = (Inr None, BufferFixedOverwrite_init 3)"
proof -
  have h: "(1::int) \<le> 3" by simp
  have e: "BufferFixedOverwrite_is_empty (BufferFixedOverwrite_init 3 :: int BufferFixedOverwrite)"
    by (simp add: BufferFixedOverwrite_is_empty_def BufferFixedOverwrite_init_def)
  from overwrite_never_raises [of 3 "[Enqueue (Some (10::int)), Enqueue (Some 20), Enqueue (Some 30)]" "Some 40"
              "BufferFixedOverwrite_init 3 :: int BufferFixedOverwrite"] h e
  show ?thesis by blast
qed

section \<open>The overwriting buffer: what the cursor does\<close>

text \<open>
  One round of \<^verbatim>\<open>enqueue; dequeue\<close> on a fresh buffer of capacity at least three leaves
  both indices at 1 and the buffer empty. The next \<^verbatim>\<open>enqueue\<close> finds
  \<^verbatim>\<open>in_index != 0 and in_index == out_index\<close>, takes the empty buffer for a full one and moves
  the read index past the slot it is about to write.
\<close>

lemma ovw_round:
  assumes "3 \<le> N"
  shows "run BufferFixedOverwrite_call (BufferFixedOverwrite_init N) [Enqueue x1, Dequeue]
    = ([Inr None, Inr x1],
       \<lparr>ovw_buffer = replicate (nat N) None,
        ovw_iter = \<lparr>max_index = N - 1, in_index = 1, out_index = 1\<rparr>,
        ovw_max_size = N, ovw_size = 0\<rparr>)"
  using assms by (simp add: ovw_defs Let_def replicate_update_same)

lemma ovw_round_enqueue:
  assumes "3 \<le> N"
  shows "run BufferFixedOverwrite_call (BufferFixedOverwrite_init N)
           [Enqueue x1, Dequeue, Enqueue x2]
    = ([Inr None, Inr x1, Inr None],
       \<lparr>ovw_buffer = (replicate (nat N) None)[1 := x2],
        ovw_iter = \<lparr>max_index = N - 1, in_index = 2, out_index = 2\<rparr>,
        ovw_max_size = N, ovw_size = 1\<rparr>)"
  using assms by (simp add: ovw_defs Let_def replicate_update_same)

lemma ovw_two_rounds:
  assumes "3 \<le> N"
  shows "run BufferFixedOverwrite_call (BufferFixedOverwrite_init N)
           [Enqueue x1, Dequeue, Enqueue x2, Dequeue]
    = ([Inr None, Inr x1, Inr None, Inr None],
       \<lparr>ovw_buffer = (replicate (nat N) None)[1 := x2],
        ovw_iter = \<lparr>max_index = N - 1, in_index = 2, out_index = (if N = 3 then 0 else 3)\<rparr>,
        ovw_max_size = N, ovw_size = 0\<rparr>)"
  using assms by (simp add: ovw_defs Let_def replicate_update_same replicate_update_clear)

text \<open>
  Claim C1, at its own example. Four items 10, 20, 30, 40 enqueued into a fresh overwriting
  buffer of capacity 3: no call raises, but the fourth \<^verbatim>\<open>enqueue\<close> finds \<^verbatim>\<open>in_index == 0\<close>
  and leaves the read index where it is, so the three \<^verbatim>\<open>dequeue\<close> calls return 40, 20, 30
  and not 20, 30, 40; \<^verbatim>\<open>size\<close> is still 1 afterwards.
\<close>

theorem overwrite_capacity3_four_items:
  "run BufferFixedOverwrite_call (BufferFixedOverwrite_init 3)
     [Enqueue (Some (10::int)), Enqueue (Some 20), Enqueue (Some 30), Enqueue (Some 40),
      Dequeue, Dequeue, Dequeue]
   = ([Inr None, Inr None, Inr None, Inr None, Inr (Some 40), Inr (Some 20), Inr (Some 30)],
      \<lparr>ovw_buffer = [None, None, None],
       ovw_iter = \<lparr>max_index = 2, in_index = 1, out_index = 0\<rparr>,
       ovw_max_size = 3, ovw_size = 1\<rparr>)"
  by code_simp

text \<open>
  Claim C2, on the overwriting buffer. \<^verbatim>\<open>enqueue\<close> adds one to \<^verbatim>\<open>size\<close> on every call:
  after four calls on a fresh buffer of capacity 3, \<^verbatim>\<open>size\<close> is 4, above the capacity, and
  \<^verbatim>\<open>is_full()\<close> is false.
\<close>

theorem overwrite_size_exceeds_capacity:
  "(let s = snd (run BufferFixedOverwrite_call (BufferFixedOverwrite_init 3)
             [Enqueue (Some (10::int)), Enqueue (Some 20), Enqueue (Some 30), Enqueue (Some 40)])
    in ovw_size s = 4 \<and> ovw_max_size s = 3 \<and> \<not> BufferFixedOverwrite_is_full s)"
  by code_simp

text \<open>
  Claim C3, on the overwriting buffer. Six strictly interleaved calls on a fresh buffer of
  capacity 3: no call raises, the first \<^verbatim>\<open>dequeue\<close> returns the item just enqueued, the
  second and the third return \<^verbatim>\<open>None\<close> while the items 2 and 3 stay in the storage.
\<close>

theorem overwrite_interleaved_capacity3:
  "run BufferFixedOverwrite_call (BufferFixedOverwrite_init 3)
     (interleave [Some (1::int), Some 2, Some 3])
   = ([Inr None, Inr (Some 1), Inr None, Inr None, Inr None, Inr None],
      \<lparr>ovw_buffer = [None, Some 2, Some 3],
       ovw_iter = \<lparr>max_index = 2, in_index = 0, out_index = 1\<rparr>,
       ovw_max_size = 3, ovw_size = 0\<rparr>)"
  by code_simp

section \<open>The overwriting buffer loses an item\<close>

text \<open>
  Claim C9. On a fresh overwriting buffer of capacity at least 3, after
  \<^verbatim>\<open>enqueue(x1); dequeue()\<close> the buffer is empty with the write index equal to the read
  index; \<^verbatim>\<open>enqueue(x2)\<close> then moves the read index one slot on, past the slot that receives
  \<open>x2\<close>. The buffer is now not empty (\<^verbatim>\<open>is_empty()\<close> is false) and holds \<open>x2\<close> at index 1,
  and \<^verbatim>\<open>dequeue()\<close> returns \<^verbatim>\<open>None\<close>.
\<close>

theorem overwrite_dequeue_none_when_not_empty:
  assumes "3 \<le> N"
  shows "let s2 = snd (run BufferFixedOverwrite_call (BufferFixedOverwrite_init N)
                        [Enqueue x1, Dequeue]);
             s3 = snd (run BufferFixedOverwrite_call (BufferFixedOverwrite_init N)
                        [Enqueue x1, Dequeue, Enqueue x2])
         in BufferFixedOverwrite_is_empty s2
            \<and> in_index (ovw_iter s2) = out_index (ovw_iter s2)
            \<and> out_index (ovw_iter s3) = out_index (ovw_iter s2) + 1
            \<and> \<not> BufferFixedOverwrite_is_empty s3
            \<and> py_getitem (ovw_buffer s3) 1 = Inr x2
            \<and> fst (BufferFixedOverwrite_dequeue s3) = Inr None"
  using assms
  by (simp only: ovw_round [OF assms] ovw_round_enqueue [OF assms] Let_def snd_conv)
     (simp add: ovw_defs Let_def)

theorem overwrite_dequeue_none_when_not_empty_witness:
  "(3::int) \<le> 3 \<and>
   (let s2 = snd (run BufferFixedOverwrite_call (BufferFixedOverwrite_init 3)
                        [Enqueue (Some (1::int)), Dequeue]);
        s3 = snd (run BufferFixedOverwrite_call (BufferFixedOverwrite_init 3)
                        [Enqueue (Some (1::int)), Dequeue, Enqueue (Some 2)])
    in BufferFixedOverwrite_is_empty s2
       \<and> in_index (ovw_iter s2) = out_index (ovw_iter s2)
       \<and> out_index (ovw_iter s3) = out_index (ovw_iter s2) + 1
       \<and> \<not> BufferFixedOverwrite_is_empty s3
       \<and> py_getitem (ovw_buffer s3) 1 = Inr (Some 2)
       \<and> fst (BufferFixedOverwrite_dequeue s3) = Inr None)"
proof -
  have h: "(3::int) \<le> 3" by simp
  from h overwrite_dequeue_none_when_not_empty [OF h, of "Some (1::int)" "Some 2"]
  show ?thesis by (rule conjI)
qed

text \<open>
  Claim C10. On a fresh overwriting buffer of capacity at least 3, the calls
  \<^verbatim>\<open>enqueue(x1); dequeue(); enqueue(x2); dequeue()\<close> return \<^verbatim>\<open>None\<close>, \<open>x1\<close>, \<^verbatim>\<open>None\<close>,
  \<^verbatim>\<open>None\<close>. For \<open>x2\<close> other than \<^verbatim>\<open>None\<close> and \<open>x1\<close>, no call has returned \<open>x2\<close>, the buffer
  reports empty, and \<open>x2\<close> is still in the storage, at index 1.
\<close>

theorem overwrite_item_lost:
  assumes "3 \<le> N" and "x2 \<noteq> None" and "x2 \<noteq> x1"
  shows "case run BufferFixedOverwrite_call (BufferFixedOverwrite_init N)
                [Enqueue x1, Dequeue, Enqueue x2, Dequeue] of
           (rs, s) \<Rightarrow>
             rs = [Inr None, Inr x1, Inr None, Inr None]
             \<and> Inr x2 \<notin> set rs
             \<and> BufferFixedOverwrite_is_empty s
             \<and> py_getitem (ovw_buffer s) 1 = Inr x2
             \<and> x2 \<in> set (ovw_buffer s)"
proof -
  have "x2 \<in> set ((replicate (nat N) None)[1 := x2])"
    using assms(1) by (intro set_update_memI) simp
  with assms show ?thesis
    by (simp only: ovw_two_rounds [OF assms(1)] prod.case)
       (simp add: BufferFixedOverwrite_is_empty_def py_getitem_def py_index_def)
qed

theorem overwrite_item_lost_witness:
  "(3::int) \<le> 3 \<and> Some (2::int) \<noteq> None \<and> Some (2::int) \<noteq> Some 1 \<and>
   (case run BufferFixedOverwrite_call (BufferFixedOverwrite_init 3)
           [Enqueue (Some 1), Dequeue, Enqueue (Some (2::int)), Dequeue] of
      (rs, s) \<Rightarrow>
        rs = [Inr None, Inr (Some 1), Inr None, Inr None]
        \<and> Inr (Some 2) \<notin> set rs
        \<and> BufferFixedOverwrite_is_empty s
        \<and> py_getitem (ovw_buffer s) 1 = Inr (Some 2)
        \<and> Some 2 \<in> set (ovw_buffer s))"
proof -
  have h: "(3::int) \<le> 3" "Some (2::int) \<noteq> None" "Some (2::int) \<noteq> Some 1"
    by simp_all
  from h overwrite_item_lost [OF h]
  show ?thesis by (intro conjI)
qed

end
